theory Spec2Isabelle
  imports
    Main
    "HOL-Library.Char_ord"
    "HOL-Library.List_Lexorder"
    "HOL-Library.Product_Lexorder"
    "HOL-Library.Sublist"
begin

section \<open>Text digest of \<^verbatim>\<open>app.py\<close>: \<^verbatim>\<open>quick_summarize\<close> and \<^verbatim>\<open>top_words\<close>\<close>

text \<open>
  A shallow embedding of the two pure helpers of \<^verbatim>\<open>src/app.py\<close> (lines 158-185) and
  of the pieces of the Python standard library they call. A Python \<^verbatim>\<open>str\<close> is a
  \<^typ>\<open>string\<close>; a \<^typ>\<open>char\<close> stands for the code point of the same number, so the
  model covers the documents whose code points are below 256. Python integers that are
  arguments are \<^typ>\<open>int\<close>; counts, scores and indices are never negative and are
  \<^typ>\<open>nat\<close>.
\<close>

subsection \<open>Character classes\<close>

text \<open>
  \<^verbatim>\<open>str.split()\<close>, \<^verbatim>\<open>str.strip()\<close> and the pattern \<^verbatim>\<open>\s\<close> of \<^verbatim>\<open>re\<close> on a \<^verbatim>\<open>str\<close> all
  use \<^verbatim>\<open>str.isspace\<close>; below 256 these are the code points 9-13, 28-32, 133 and 160.
\<close>

definition is_space :: "char \<Rightarrow> bool" where
  "is_space c \<longleftrightarrow>
     c \<in> set [CHR 0x09, CHR 0x0A, CHR 0x0B, CHR 0x0C, CHR 0x0D,
              CHR 0x1C, CHR 0x1D, CHR 0x1E, CHR 0x1F, CHR 0x20, CHR 0x85, CHR 0xA0]"

text \<open>The class \<^verbatim>\<open>[.!?]\<close> of the look-behind in line 166.\<close>

definition is_terminal :: "char \<Rightarrow> bool" where
  "is_terminal c \<longleftrightarrow> c = CHR ''.'' \<or> c = CHR ''!'' \<or> c = CHR ''?''"

text \<open>The class \<^verbatim>\<open>[A-Za-z']\<close> of lines 169, 174 and 183; the apostrophe is code point 39.\<close>

definition is_word_char :: "char \<Rightarrow> bool" where
  "is_word_char c \<longleftrightarrow>
     (CHR ''A'' \<le> c \<and> c \<le> CHR ''Z'') \<or> (CHR ''a'' \<le> c \<and> c \<le> CHR ''z'') \<or> c = CHR 0x27"

text \<open>
  \<^verbatim>\<open>w.lower()\<close> is only ever applied to a match of \<^verbatim>\<open>[A-Za-z']+\<close>, where it maps
  \<^verbatim>\<open>A-Z\<close> to \<^verbatim>\<open>a-z\<close> and leaves the other characters alone.
\<close>

definition lower_char :: "char \<Rightarrow> char" where
  "lower_char c =
     (if CHR ''A'' \<le> c \<and> c \<le> CHR ''Z'' then char_of (of_char c + (32 :: nat)) else c)"

definition lower :: "string \<Rightarrow> string" where
  "lower w = map lower_char w"

subsection \<open>Scanning\<close>

text \<open>
  The maximal non-empty runs of characters that satisfy \<open>P\<close>, from left to right;
  \<open>cur\<close> is the run being read, reversed.
\<close>

fun runs :: "(char \<Rightarrow> bool) \<Rightarrow> string \<Rightarrow> string \<Rightarrow> string list" where
  "runs P cur [] = (if cur = [] then [] else [rev cur])"
| "runs P cur (c # cs) =
     (if P c then runs P (c # cur) cs
      else if cur = [] then runs P [] cs
      else rev cur # runs P [] cs)"

text \<open>\<^verbatim>\<open>text.split()\<close>: the maximal runs of characters that are not white space.\<close>

definition py_split :: "string \<Rightarrow> string list" where
  "py_split s = runs (\<lambda>c. \<not> is_space c) [] s"

text \<open>\<^verbatim>\<open>re.findall(r"[A-Za-z']+", s)\<close>: the maximal runs of letters and apostrophes.\<close>

definition findall_words :: "string \<Rightarrow> string list" where
  "findall_words s = runs is_word_char [] s"

text \<open>\<^verbatim>\<open>text.strip()\<close>: white space removed at both ends.\<close>

definition py_strip :: "string \<Rightarrow> string" where
  "py_strip s = rev (dropWhile is_space (rev (dropWhile is_space s)))"

text \<open>
  \<^verbatim>\<open>re.split(r'(?<=[.!?])\s+', s)\<close>. A match starts at a white-space character whose
  predecessor is one of \<^verbatim>\<open>.!?\<close> and takes the whole run of white space (the
  predecessor is not white space, so a match never starts inside a run). The piece
  before the match keeps its punctuation; the piece after the last match is always
  returned, also when it is empty. \<open>cur\<close> is the piece being read, reversed.
\<close>

function re_split :: "string \<Rightarrow> string \<Rightarrow> string list" where
  "re_split cur [] = [rev cur]"
| "re_split cur (c # cs) =
     (if is_terminal c \<and> cs \<noteq> [] \<and> is_space (hd cs)
      then rev (c # cur) # re_split [] (dropWhile is_space cs)
      else re_split (c # cur) cs)"
  by pat_completeness auto
termination
  by (relation "measure (\<lambda>(cur, s). length s)")
     (auto simp: le_imp_less_Suc length_dropWhile_le)

text \<open>\<^verbatim>\<open>" ".join(xs)\<close>.\<close>

fun join_space :: "string list \<Rightarrow> string" where
  "join_space [] = []"
| "join_space [x] = x"
| "join_space (x # y # ys) = x @ '' '' @ join_space (y # ys)"

text \<open>
  The slice \<^verbatim>\<open>xs[:k]\<close> for a Python integer \<open>k\<close>: the first \<open>k\<close> elements, and for a
  negative \<open>k\<close> all but the last \<open>-k\<close>.
\<close>

definition py_take :: "int \<Rightarrow> 'a list \<Rightarrow> 'a list" where
  "py_take k xs =
     (if 0 \<le> k then take (nat k) xs else take (nat (int (length xs) + k)) xs)"

subsection \<open>Stop words and counting\<close>

text \<open>\<^verbatim>\<open>STOPWORDS\<close>, lines 27-29.\<close>

definition STOPWORDS :: "string set" where
  "STOPWORDS = set [''a'', ''an'', ''and'', ''are'', ''as'', ''at'', ''be'', ''by'', ''for'',
     ''from'', ''has'', ''he'', ''in'', ''is'', ''it'', ''its'', ''of'', ''on'', ''that'',
     ''the'', ''to'', ''was'', ''were'', ''will'', ''with'', ''your'', ''you'', ''i'', ''me'',
     ''my'', ''we'', ''our'', ''theirs'', ''ours'']"

text \<open>
  \<^verbatim>\<open>collections.Counter\<close>: a dictionary from element to count. A Python dictionary
  keeps its keys in the order of their insertion, which \<^verbatim>\<open>most_common\<close> observes, so
  the table is an association list in that order. \<open>counter_add\<close> is one step of
  \<^verbatim>\<open>Counter.update\<close>: an old key keeps its place, a new key goes to the end.
\<close>

fun counter_add :: "'a \<Rightarrow> ('a \<times> nat) list \<Rightarrow> ('a \<times> nat) list" where
  "counter_add w [] = [(w, 1)]"
| "counter_add w ((v, c) # rest) =
     (if v = w then (v, Suc c) # rest else (v, c) # counter_add w rest)"

definition Counter :: "'a list \<Rightarrow> ('a \<times> nat) list" where
  "Counter ws = foldl (\<lambda>tab w. counter_add w tab) [] ws"

text \<open>\<^verbatim>\<open>freq.get(w, 0)\<close>.\<close>

definition freq_get :: "('a \<times> nat) list \<Rightarrow> 'a \<Rightarrow> nat" where
  "freq_get freq w = (case map_of freq w of None \<Rightarrow> 0 | Some c \<Rightarrow> c)"

text \<open>
  \<^verbatim>\<open>Counter.most_common(n)\<close> is \<^verbatim>\<open>heapq.nlargest(n, items, key=count)\<close>. For
  \<open>n \<le> 0\<close> CPython's \<^verbatim>\<open>nlargest\<close> returns the empty list (for \<open>n = 0\<close> by an empty
  slice or an empty heap, for \<open>n < 0\<close> because the heap is built over the empty
  \<^verbatim>\<open>range(0, -n, -1)\<close>). For \<open>n \<ge> 1\<close> it returns the first \<open>n\<close> items of the list
  sorted by count, largest first, where items of equal count stay in the order of the
  table (\<^verbatim>\<open>max\<close> returns the first maximum, \<^verbatim>\<open>sorted(..., reverse=True)\<close> is stable, and
  the heap decorates each item with a decreasing sequence number).
\<close>

definition by_count_desc :: "('a \<times> nat) list \<Rightarrow> ('a \<times> nat) list" where
  "by_count_desc items = sort_key (\<lambda>(w, c). - int c) items"

definition most_common :: "int \<Rightarrow> ('a \<times> nat) list \<Rightarrow> ('a \<times> nat) list" where
  "most_common n items = (if n \<le> 0 then [] else take (nat n) (by_count_desc items))"

subsection \<open>The two helpers\<close>

text \<open>
  Lines 169-170 and 183-184: the lower-cased matches of \<^verbatim>\<open>[A-Za-z']+\<close> that are not
  stop words.
\<close>

definition content_words :: "string \<Rightarrow> string list" where
  "content_words text =
     filter (\<lambda>w. w \<notin> STOPWORDS) (map lower (findall_words text))"

text \<open>\<^verbatim>\<open>top_words\<close>, lines 182-185.\<close>

definition top_words :: "string \<Rightarrow> int \<Rightarrow> (string \<times> nat) list" where
  "top_words text n = most_common n (Counter (content_words text))"

text \<open>Line 166: \<^verbatim>\<open>sents\<close>.\<close>

definition sentences :: "string \<Rightarrow> string list" where
  "sentences text = re_split [] (py_strip text)"

text \<open>Lines 174-175: the score of one sentence against the table \<open>freq\<close>.\<close>

definition sentence_score :: "(string \<times> nat) list \<Rightarrow> string \<Rightarrow> nat" where
  "sentence_score freq s = sum_list (map (freq_get freq) (map lower (findall_words s)))"

text \<open>Lines 171-176: \<^verbatim>\<open>scores\<close>, one triple \<^verbatim>\<open>(score, i, s)\<close> for each sentence, in order.\<close>

definition scores :: "string \<Rightarrow> (nat \<times> nat \<times> string) list" where
  "scores text =
     (let freq = Counter (content_words text)
      in map (\<lambda>(i, s). (sentence_score freq s, i, s)) (enumerate 0 (sentences text)))"

text \<open>
  Line 177: \<^verbatim>\<open>sorted(scores, reverse=True)\<close> compares whole triples, lexicographically;
  no two triples are equal, so the result is the ascending order reversed.
  \<open>top_entries\<close> is the slice \<^verbatim>\<open>[:max_sentences]\<close> and \<open>top_sents\<close> is \<^verbatim>\<open>top\<close>, its sentences.
\<close>

definition ranked :: "string \<Rightarrow> (nat \<times> nat \<times> string) list" where
  "ranked text = rev (sort (scores text))"

definition top_entries :: "string \<Rightarrow> int \<Rightarrow> (nat \<times> nat \<times> string) list" where
  "top_entries text max_sentences = py_take max_sentences (ranked text)"

definition top_sents :: "string \<Rightarrow> int \<Rightarrow> string list" where
  "top_sents text max_sentences = map (\<lambda>(_, _, s). s) (top_entries text max_sentences)"

text \<open>Line 179: \<^verbatim>\<open>chosen\<close>, the pairs \<^verbatim>\<open>(i, s)\<close> whose sentence is in \<^verbatim>\<open>top\<close>, sorted by \<open>i\<close>.\<close>

definition chosen :: "string \<Rightarrow> int \<Rightarrow> (nat \<times> string) list" where
  "chosen text max_sentences =
     sort_key fst
       (map (\<lambda>(_, i, s). (i, s))
          (filter (\<lambda>(_, _, s). s \<in> set (top_sents text max_sentences)) (scores text)))"

text \<open>\<^verbatim>\<open>quick_summarize\<close>, lines 158-180.\<close>

definition quick_summarize :: "string \<Rightarrow> int \<Rightarrow> string" where
  "quick_summarize text max_sentences =
     (if text = [] \<or> length (py_split text) < 20 then text
      else if int (length (sentences text)) \<le> max_sentences then text
      else join_space (map snd (chosen text max_sentences)))"

subsection \<open>Specification functions\<close>

text \<open>
  The distinct elements of a list in the order of their first occurrence; the order in
  which a Python dictionary lists the keys inserted from that list.
\<close>

fun first_occ :: "'a list \<Rightarrow> 'a list" where
  "first_occ [] = []"
| "first_occ (x # xs) = x # filter (\<lambda>y. y \<noteq> x) (first_occ xs)"

subsection \<open>Example documents\<close>

text \<open>
  Three documents of exactly twenty words. In \<open>doc_tie\<close> the first two sentences have the
  same score; in \<open>doc_repeat\<close> one sentence occurs four times; \<open>doc_twice\<close> is one
  sentence of ten words, twice.
\<close>

definition doc_tie :: string where
  "doc_tie = ''cat cat. cat cat! a a a a a a a a a a a a a a a a''"

definition doc_repeat :: string where
  "doc_repeat = ''go go. go go. go go. go go. a a a a a a a a a a a a''"

definition doc_twice :: string where
  "doc_twice = ''b c d e f g h j k l. b c d e f g h j k l.''"

text \<open>
  A document of twenty words whose first sentence is three runs of three apostrophes;
  its second sentence has the only other counted word.
\<close>

definition tick3 :: string where
  "tick3 = [CHR 0x27, CHR 0x27, CHR 0x27]"

definition doc_ticks :: string where
  "doc_ticks = tick3 @ '' '' @ tick3 @ '' '' @ tick3 @ ''. cat cat. a a a a a a a a a a a a a a a''"

section \<open>Counting and ranking words\<close>

lemma set_first_occ: "set (first_occ xs) = set xs"
  by (induction xs) auto

lemma distinct_first_occ: "distinct (first_occ xs)"
  by (induction xs) (auto simp: set_first_occ)

lemma filter_first_occ: "filter P (first_occ xs) = first_occ (filter P xs)"
proof (induction xs)
  case Nil
  show ?case by simp
next
  case (Cons x xs)
  show ?case
  proof (cases "P x")
    case True
    have "filter P (filter (\<lambda>y. y \<noteq> x) (first_occ xs))
        = filter (\<lambda>y. y \<noteq> x) (filter P (first_occ xs))"
      by (simp add: conj_commute)
    with True show ?thesis using Cons.IH by simp
  next
    case False
    have "filter (\<lambda>y. y \<noteq> x \<and> P y) (first_occ xs) = filter P (first_occ xs)"
      using False by (intro filter_cong) auto
    with False show ?thesis using Cons.IH by simp
  qed
qed

lemma keys_counter_add:
  "map fst (counter_add w tab) = (if w \<in> fst ` set tab then map fst tab else map fst tab @ [w])"
  by (induction tab) force+

lemma freq_get_counter_add:
  "freq_get (counter_add w tab) v = (if v = w then Suc (freq_get tab v) else freq_get tab v)"
  by (induction tab) (auto simp: freq_get_def)

lemma keys_counter_fold:
  "map fst (foldl (\<lambda>tab w. counter_add w tab) tab ws) =
     map fst tab @ first_occ (filter (\<lambda>w. w \<notin> fst ` set tab) ws)"
proof (induction ws arbitrary: tab)
  case Nil
  show ?case by simp
next
  case (Cons w ws)
  show ?case
  proof (cases "w \<in> fst ` set tab")
    case True
    then have "fst ` set (counter_add w tab) = fst ` set tab"
      using keys_counter_add [of w tab] by (metis set_map)
    with True show ?thesis
      using Cons.IH [of "counter_add w tab"] by (simp add: keys_counter_add)
  next
    case False
    then have k: "fst ` set (counter_add w tab) = insert w (fst ` set tab)"
      using keys_counter_add [of w tab] by (metis Un_insert_right append_Nil2 list.simps(15) set_append set_map)
    have "filter (\<lambda>v. v \<notin> insert w (fst ` set tab)) ws =
          filter (\<lambda>y. y \<noteq> w) (filter (\<lambda>v. v \<notin> fst ` set tab) ws)"
      by (induction ws) auto
    with False k show ?thesis
      using Cons.IH [of "counter_add w tab"]
      by (simp add: keys_counter_add filter_first_occ)
  qed
qed

lemma freq_get_counter_fold:
  "freq_get (foldl (\<lambda>tab w. counter_add w tab) tab ws) v = freq_get tab v + count_list ws v"
  by (induction ws arbitrary: tab) (auto simp: freq_get_counter_add)

lemma keys_Counter: "map fst (Counter ws) = first_occ ws"
  by (simp add: Counter_def keys_counter_fold)

lemma freq_get_Counter: "freq_get (Counter ws) v = count_list ws v"
proof -
  have "freq_get [] v = 0" by (simp add: freq_get_def)
  then show ?thesis by (simp add: Counter_def freq_get_counter_fold)
qed

lemma Counter_eq: "Counter ws = map (\<lambda>w. (w, count_list ws w)) (first_occ ws)"
proof -
  have d: "distinct (map fst (Counter ws))"
    by (simp add: keys_Counter distinct_first_occ)
  have "\<And>p. p \<in> set (Counter ws) \<Longrightarrow> p = (fst p, count_list ws (fst p))"
  proof -
    fix p assume "p \<in> set (Counter ws)"
    then have "map_of (Counter ws) (fst p) = Some (snd p)"
      using d by simp
    then have "freq_get (Counter ws) (fst p) = snd p"
      by (simp add: freq_get_def)
    then show "p = (fst p, count_list ws (fst p))"
      by (simp add: freq_get_Counter prod_eq_iff)
  qed
  then have "map (\<lambda>p. (fst p, count_list ws (fst p))) (Counter ws) = Counter ws"
    by (simp add: map_idI)
  then have "Counter ws = map (\<lambda>w. (w, count_list ws w)) (map fst (Counter ws))"
    by (simp add: comp_def)
  then show ?thesis by (simp add: keys_Counter)
qed

lemma by_count_desc_sorted: "sorted_wrt (\<lambda>p q. snd q \<le> snd p) (by_count_desc items)"
proof -
  have "sorted (map (\<lambda>(w, c). - int c) (by_count_desc items))"
    unfolding by_count_desc_def by (rule sorted_sort_key)
  then show ?thesis
    by (simp add: sorted_map sorted_wrt_iff_nth_less case_prod_beta)
qed

lemma by_count_desc_stable:
  "filter (\<lambda>p. snd p = c) (by_count_desc items) = filter (\<lambda>p. snd p = c) items"
proof -
  have "filter (\<lambda>p. (\<lambda>(w, c). - int c) p = - int c) (by_count_desc items)
      = filter (\<lambda>p. (\<lambda>(w, c). - int c) p = - int c) items"
    unfolding by_count_desc_def by (rule sort_key_stable)
  then show ?thesis by (simp add: case_prod_beta)
qed

lemma top_words_take: "top_words text n = take (nat n) (by_count_desc (Counter (content_words text)))"
  by (simp add: top_words_def most_common_def)

lemma set_by_count_desc: "set (by_count_desc items) = set items"
  by (simp add: by_count_desc_def)

lemma set_top_words_subset: "set (top_words text n) \<subseteq> set (Counter (content_words text))"
  using set_take_subset [of "nat n" "by_count_desc (Counter (content_words text))"]
  by (simp add: top_words_take set_by_count_desc)

lemma content_words_not_stop: "w \<in> set (content_words text) \<Longrightarrow> w \<notin> STOPWORDS"
  by (simp add: content_words_def)

text \<open>
  Claim C5: for every document and every \<open>n\<close>, \<open>top_words\<close> returns the first \<open>n\<close> pairs
  of the table sorted by count, largest first; pairs of equal count stay in the order of
  the table, which lists each token once, with its number of occurrences, in the order of
  first occurrence in the document; \<open>top_words "cat cat dog dog" 2\<close> is
  \<open>[("cat", 2), ("dog", 2)]\<close>.
\<close>

theorem top_words_ranking:
  "top_words text n = take (nat n) (by_count_desc (Counter (content_words text)))
   \<and> sorted_wrt (\<lambda>p q. snd q \<le> snd p) (by_count_desc (Counter (content_words text)))
   \<and> (\<forall>c. filter (\<lambda>p. snd p = c) (by_count_desc (Counter (content_words text)))
          = filter (\<lambda>p. snd p = c) (Counter (content_words text)))
   \<and> Counter (content_words text)
        = map (\<lambda>w. (w, count_list (content_words text) w)) (first_occ (content_words text))
   \<and> top_words ''cat cat dog dog'' 2 = [(''cat'', 2), (''dog'', 2)]"
proof -
  have ex: "top_words ''cat cat dog dog'' 2 = [(''cat'', 2), (''dog'', 2)]"
    by code_simp
  show ?thesis
    using top_words_take by_count_desc_sorted by_count_desc_stable Counter_eq ex
    by blast
qed

text \<open>
  Claim C6: for every document and every \<open>n\<close>, no pair returned by \<open>top_words\<close> has a
  token in \<open>STOPWORDS\<close>, and a document all of whose tokens are stop words yields the
  empty list.
\<close>

theorem top_words_no_stopwords:
  "(\<forall>(w, c) \<in> set (top_words text n). w \<notin> STOPWORDS)
   \<and> (set (map lower (findall_words text)) \<subseteq> STOPWORDS \<longrightarrow> top_words text n = [])"
proof -
  have a: "w \<notin> STOPWORDS" if "(w, c) \<in> set (top_words text n)" for w c
  proof -
    from that have "(w, c) \<in> set (Counter (content_words text))"
      using set_top_words_subset by blast
    then have "w \<in> set (map fst (Counter (content_words text)))"
      by force
    then have "w \<in> set (content_words text)"
      by (simp add: keys_Counter set_first_occ)
    then show ?thesis by (rule content_words_not_stop)
  qed
  have b: "top_words text n = []" if "set (map lower (findall_words text)) \<subseteq> STOPWORDS"
  proof -
    from that have "content_words text = []"
      unfolding content_words_def by (auto simp: filter_empty_conv)
    then show ?thesis
      by (simp add: top_words_take Counter_def by_count_desc_def)
  qed
  from a b show ?thesis by blast
qed

theorem top_words_no_stopwords_witness:
  "set (map lower (findall_words ''The THE of and, it is You'')) \<subseteq> STOPWORDS
   \<and> top_words ''The THE of and, it is You'' 5 = []
   \<and> (''cat'', 2) \<in> set (top_words ''The cat sat on the mat and the cat ran'' 3)
   \<and> ''cat'' \<notin> STOPWORDS"
proof -
  have h: "set (map lower (findall_words ''The THE of and, it is You'')) \<subseteq> STOPWORDS"
    by code_simp
  have m: "(''cat'', 2) \<in> set (top_words ''The cat sat on the mat and the cat ran'' 3)"
    by code_simp
  from h m show ?thesis
    using top_words_no_stopwords [of "''The THE of and, it is You''" 5]
      top_words_no_stopwords [of "''The cat sat on the mat and the cat ran''" 3]
    by blast
qed

text \<open>
  Claim C9: for every document and every \<open>n \<le> 0\<close>, negative values included,
  \<open>top_words\<close> returns the empty list; the model has no error branch because the code
  raises nowhere.
\<close>

theorem top_words_nonpositive: "n \<le> 0 \<Longrightarrow> top_words text n = []"
  by (simp add: top_words_def most_common_def)

theorem top_words_nonpositive_witness:
  "(- 3 :: int) \<le> 0
   \<and> top_words ''one two three two three three four five six'' (- 3) = []
   \<and> top_words ''one two three two three three four five six'' 0 = []
   \<and> top_words ''one two three two three three four five six'' 2 = [(''three'', 3), (''two'', 2)]"
proof -
  have p: "top_words ''one two three two three three four five six'' 2
           = [(''three'', 3), (''two'', 2)]"
    by code_simp
  show ?thesis
    using top_words_nonpositive [of "- 3" "''one two three two three three four five six''"]
      top_words_nonpositive [of 0 "''one two three two three three four five six''"] p
    by simp
qed

section \<open>Summaries\<close>

lemma scores_eq:
  "scores text =
     map (\<lambda>(i, s). (sentence_score (Counter (content_words text)) s, i, s))
       (enumerate 0 (sentences text))"
  by (simp add: scores_def)

lemma chosen_filter:
  "chosen text k =
     filter (\<lambda>(i, s). s \<in> set (top_sents text k)) (enumerate 0 (sentences text))"
proof -
  let ?P = "\<lambda>(i, s). s \<in> set (top_sents text k)"
  have "map (\<lambda>(_, i, s). (i, s))
          (filter (\<lambda>(_, _, s). s \<in> set (top_sents text k)) (scores text))
        = filter ?P (enumerate 0 (sentences text))"
    by (simp add: scores_eq filter_map comp_def case_prod_unfold)
  moreover have "sorted (map fst (filter ?P (enumerate 0 (sentences text))))"
    by (rule sorted_filter) (rule sorted_enumerate)
  ultimately show ?thesis
    by (simp add: chosen_def sort_key_id_if_sorted)
qed

lemma chosen_sentences:
  "map snd (chosen text k) = filter (\<lambda>s. s \<in> set (top_sents text k)) (sentences text)"
proof -
  have "map snd (filter (\<lambda>(i, s). P s) (enumerate n xs)) = filter P xs" for P n and xs :: "string list"
    by (induction xs arbitrary: n) auto
  then show ?thesis by (simp add: chosen_filter)
qed

lemma chosen_indices_ascending: "sorted_wrt (<) (map fst (chosen text k))"
proof -
  have "sorted_wrt (<) (map fst (enumerate 0 (sentences text)))"
    by simp
  then have "sorted_wrt (\<lambda>p q. fst p < fst q) (enumerate 0 (sentences text))"
    by (simp only: sorted_wrt_map)
  then have "sorted_wrt (\<lambda>p q. fst p < fst q) (chosen text k)"
    unfolding chosen_filter by (rule sorted_wrt_filter)
  then show ?thesis by (simp add: sorted_wrt_map)
qed

lemma chosen_subset: "set (chosen text k) \<subseteq> set (enumerate 0 (sentences text))"
  by (auto simp: chosen_filter)

lemma re_split_nonempty: "re_split cur s \<noteq> []"
  by (induction cur s rule: re_split.induct) auto

lemma sentences_nonempty: "0 < length (sentences text)"
  by (simp add: sentences_def re_split_nonempty)

lemma length_scores: "length (scores text) = length (sentences text)"
  by (simp add: scores_eq)

lemma length_ranked: "length (ranked text) = length (sentences text)"
  by (simp add: ranked_def length_scores)

lemma count_list_filter_le: "count_list (filter P xs) x \<le> count_list xs x"
  by (induction xs) auto

lemma in_scores_iff:
  "x \<in> set (scores text) \<longleftrightarrow>
     fst (snd x) < length (sentences text)
     \<and> snd (snd x) = sentences text ! fst (snd x)
     \<and> fst x = sentence_score (Counter (content_words text)) (snd (snd x))"
proof -
  obtain sc i s where x: "x = (sc, i, s)" by (cases x)
  have "x \<in> set (scores text) \<longleftrightarrow>
          (i, s) \<in> set (enumerate 0 (sentences text))
          \<and> sc = sentence_score (Counter (content_words text)) s"
    unfolding scores_eq x by force
  then show ?thesis
    by (auto simp: x in_set_enumerate_eq)
qed

lemma scores_same_index:
  "x \<in> set (scores text) \<Longrightarrow> y \<in> set (scores text) \<Longrightarrow> fst (snd x) = fst (snd y) \<Longrightarrow> x = y"
  by (simp add: in_scores_iff prod_eq_iff)

lemma distinct_scores: "distinct (scores text)"
proof -
  have "map (\<lambda>x. fst (snd x)) (scores text) = map fst (enumerate 0 (sentences text))"
    by (simp add: scores_eq comp_def case_prod_unfold)
  then have "distinct (map (\<lambda>x. fst (snd x)) (scores text))"
    by simp
  then show ?thesis by (simp add: distinct_map)
qed

lemma set_ranked: "set (ranked text) = set (scores text)"
  by (simp add: ranked_def)

lemma ranked_strictly_descending: "sorted_wrt (\<lambda>x y. y < x) (ranked text)"
proof -
  have "sorted_wrt (<) (sort (scores text))"
    by (simp add: strict_sorted_iff distinct_scores)
  then show ?thesis
    by (simp add: ranked_def sorted_wrt_rev)
qed

lemma ranked_by_score_then_index:
  "sorted_wrt (\<lambda>(sc, i, s) (sc', i', s'). sc' < sc \<or> (sc' = sc \<and> i' < i)) (ranked text)"
proof (rule sorted_wrt_mono_rel [OF _ ranked_strictly_descending])
  fix x y
  assume x: "x \<in> set (ranked text)" and y: "y \<in> set (ranked text)" and lt: "y < x"
  obtain sc i s where xe: "x = (sc, i, s)" by (cases x)
  obtain sc' i' s' where ye: "y = (sc', i', s')" by (cases y)
  have "i' \<noteq> i"
  proof
    assume "i' = i"
    then have "x = y"
      using scores_same_index [of x "text" y] x y xe ye by (simp add: set_ranked)
    with lt show False by simp
  qed
  with lt xe ye have "sc' < sc \<or> (sc' = sc \<and> i' < i)"
    by (auto simp: less_prod_def less_eq_prod_def)
  with xe ye show "(case x of (sc, i, s) \<Rightarrow> \<lambda>(sc', i', s'). sc' < sc \<or> (sc' = sc \<and> i' < i)) y"
    by simp
qed

lemma take_sorted_desc_closed:
  fixes ys :: "('a :: linorder) list"
  assumes "sorted_wrt (\<lambda>x y. y < x) ys" and "x \<in> set (take n ys)" and "y \<in> set ys" and "x < y"
  shows "y \<in> set (take n ys)"
proof (rule ccontr)
  assume "y \<notin> set (take n ys)"
  with assms(3) have "y \<in> set (drop n ys)"
    by (metis Un_iff append_take_drop_id set_append)
  moreover have "sorted_wrt (\<lambda>x y. y < x) (take n ys @ drop n ys)"
    using assms(1) by simp
  ultimately have "y < x"
    using assms(2) unfolding sorted_wrt_append by blast
  with assms(4) show False by simp
qed

lemma top_entries_take: "\<exists>n. top_entries text k = take n (ranked text)"
  by (auto simp: top_entries_def py_take_def)

text \<open>
  Claim C1, amended: the candidates are sorted by score descending and then by original
  index descending (line 177 reverses the order of the whole triples), and the top
  slice is a prefix of that list; so when two sentences have equal scores and the one
  with the lower index is in the slice, the one with the higher index is in it too.
  Ties prefer the later sentence.
\<close>

theorem ties_prefer_later_sentence:
  "sorted_wrt (\<lambda>(sc, i, s) (sc', i', s'). sc' < sc \<or> (sc' = sc \<and> i' < i)) (ranked text)
   \<and> (\<forall>sc i j s s'.
         (sc, i, s) \<in> set (top_entries text k) \<and> (sc, j, s') \<in> set (scores text) \<and> i < j
         \<longrightarrow> (sc, j, s') \<in> set (top_entries text k))"
proof -
  have "(sc, j, s') \<in> set (top_entries text k)"
    if a: "(sc, i, s) \<in> set (top_entries text k)" and b: "(sc, j, s') \<in> set (scores text)"
      and c: "i < j" for sc i j s s'
  proof -
    obtain n where n: "top_entries text k = take n (ranked text)"
      using top_entries_take by blast
    have "(sc, i, s) < (sc, j, s')"
      using c by (simp add: less_prod_def less_eq_prod_def)
    then show ?thesis
      using take_sorted_desc_closed [OF ranked_strictly_descending, of "(sc, i, s)" n "text" "(sc, j, s')"]
        a b n by (simp add: set_ranked)
  qed
  then show ?thesis using ranked_by_score_then_index by blast
qed

theorem ties_prefer_later_sentence_witness:
  "(8, 0, ''cat cat.'') \<in> set (top_entries doc_tie 2)
   \<and> (8, 1, ''cat cat!'') \<in> set (scores doc_tie) \<and> (0 :: nat) < 1
   \<and> (8, 1, ''cat cat!'') \<in> set (top_entries doc_tie 2)
   \<and> ranked doc_tie = [(8, 1, ''cat cat!''), (8, 0, ''cat cat.''),
                         (0, 2, ''a a a a a a a a a a a a a a a a'')]"
proof -
  have a: "(8, 0, ''cat cat.'') \<in> set (top_entries doc_tie 2)" by code_simp
  have b: "(8, 1, ''cat cat!'') \<in> set (scores doc_tie)" by code_simp
  have r: "ranked doc_tie = [(8, 1, ''cat cat!''), (8, 0, ''cat cat.''),
                         (0, 2, ''a a a a a a a a a a a a a a a a'')]" by code_simp
  have "(8, 1, ''cat cat!'') \<in> set (top_entries doc_tie 2)"
    using ties_prefer_later_sentence [of doc_tie 2] a b by blast
  with a b r show ?thesis by simp
qed

text \<open>
  Claim C1 as stated fails: in \<open>doc_tie\<close> sentences 0 and 1 both score 8, and with
  \<open>max_sentences = 1\<close> the slice holds sentence 1 only.
\<close>

theorem earlier_sentence_loses_tie:
  "(8, 0, ''cat cat.'') \<in> set (scores doc_tie)
   \<and> (8, 1, ''cat cat!'') \<in> set (scores doc_tie)
   \<and> top_entries doc_tie 1 = [(8, 1, ''cat cat!'')]
   \<and> length (py_split doc_tie) = 20
   \<and> quick_summarize doc_tie 1 = ''cat cat!''"
  by code_simp

lemma py_take_zero: "py_take 0 xs = []"
  by (simp add: py_take_def)

lemma quick_summarize_zero:
  "quick_summarize text 0 = (if text = [] \<or> length (py_split text) < 20 then text else [])"
proof -
  have "top_sents text 0 = []"
    by (simp add: top_sents_def top_entries_def py_take_zero)
  then have "chosen text 0 = []"
    by (simp add: chosen_filter)
  then show ?thesis
    using sentences_nonempty [of "text"] by (simp add: quick_summarize_def)
qed

text \<open>
  Claim C7: the chosen pairs are the pairs \<open>(i, s)\<close> of the document's sentences whose
  text is in \<open>top\<close>, in the order of the document: their indices are strictly ascending
  whatever the order of the scores was, each \<open>s\<close> is the sentence at index \<open>i\<close>, and off
  the fallback the summary is these sentences joined by a single space.
\<close>

theorem summary_in_document_order:
  "chosen text k = filter (\<lambda>(i, s). s \<in> set (top_sents text k)) (enumerate 0 (sentences text))
   \<and> sorted_wrt (<) (map fst (chosen text k))
   \<and> (\<forall>(i, s) \<in> set (chosen text k). i < length (sentences text) \<and> sentences text ! i = s)
   \<and> (text \<noteq> [] \<and> 20 \<le> length (py_split text) \<and> k < int (length (sentences text))
        \<longrightarrow> quick_summarize text k = join_space (map snd (chosen text k)))"
proof -
  have "\<forall>(i, s) \<in> set (chosen text k). i < length (sentences text) \<and> sentences text ! i = s"
    using chosen_subset [of "text" k] by (auto simp: in_set_enumerate_eq)
  moreover have "text \<noteq> [] \<and> 20 \<le> length (py_split text) \<and> k < int (length (sentences text))
        \<longrightarrow> quick_summarize text k = join_space (map snd (chosen text k))"
    by (simp add: quick_summarize_def)
  ultimately show ?thesis
    using chosen_filter chosen_indices_ascending by blast
qed

theorem summary_in_document_order_witness:
  "doc_tie \<noteq> [] \<and> 20 \<le> length (py_split doc_tie) \<and> 2 < int (length (sentences doc_tie))
   \<and> top_sents doc_tie 2 = [''cat cat!'', ''cat cat.'']
   \<and> chosen doc_tie 2 = [(0, ''cat cat.''), (1, ''cat cat!'')]
   \<and> quick_summarize doc_tie 2 = join_space (map snd (chosen doc_tie 2))
   \<and> quick_summarize doc_tie 2 = ''cat cat. cat cat!''"
proof -
  have h: "doc_tie \<noteq> [] \<and> 20 \<le> length (py_split doc_tie) \<and> 2 < int (length (sentences doc_tie))"
    by code_simp
  have t: "top_sents doc_tie 2 = [''cat cat!'', ''cat cat.'']" by code_simp
  have c: "chosen doc_tie 2 = [(0, ''cat cat.''), (1, ''cat cat!'')]" by code_simp
  have "quick_summarize doc_tie 2 = join_space (map snd (chosen doc_tie 2))"
    using summary_in_document_order [of doc_tie 2] h by blast
  with h t c show ?thesis by simp
qed

text \<open>
  Claim C8: the sentences of the summary are a subsequence of the sentences obtained by
  splitting the document, so each is one of them verbatim and occurs in the summary at
  most as often as in the document; the result is either the document itself or these
  sentences joined by a space.
\<close>

theorem summary_sentences_verbatim:
  "subseq (map snd (chosen text k)) (sentences text)
   \<and> (\<forall>s. count_list (map snd (chosen text k)) s \<le> count_list (sentences text) s)
   \<and> (quick_summarize text k = text
        \<or> quick_summarize text k = join_space (map snd (chosen text k)))"
proof -
  have "subseq (map snd (chosen text k)) (sentences text)"
    by (simp add: chosen_sentences)
  moreover have "\<forall>s. count_list (map snd (chosen text k)) s \<le> count_list (sentences text) s"
    by (simp add: chosen_sentences count_list_filter_le)
  moreover have "quick_summarize text k = text
        \<or> quick_summarize text k = join_space (map snd (chosen text k))"
    by (simp add: quick_summarize_def)
  ultimately show ?thesis by blast
qed

text \<open>
  Claim C3, amended: for \<open>max_sentences \<le> 0\<close> nothing is clamped. The sentence-count
  fallback never applies (there is always at least one sentence): a document that is
  empty or shorter than twenty words is returned unchanged, and for any other document
  the result is the join of the chosen sentences, where the top slice is empty for \<open>0\<close>
  and holds all but the last \<open>- max_sentences\<close> ranked candidates for a negative value.
  For \<open>0\<close> the result is the empty string for every document of at least twenty words,
  so the document is returned unchanged exactly when it is empty or shorter than
  twenty words; for a negative value nothing is said about when the join coincides
  with the document. The function is total: no operation of \<open>quick_summarize\<close> can
  raise.
\<close>

theorem nonpositive_max_sentences:
  assumes "k \<le> 0"
  shows "quick_summarize text k =
           (if text = [] \<or> length (py_split text) < 20 then text
            else join_space (map snd (chosen text k)))
         \<and> top_entries text k =
             (if k = 0 then [] else take (length (sentences text) - nat (- k)) (ranked text))
         \<and> quick_summarize text 0 =
             (if text = [] \<or> length (py_split text) < 20 then text else [])
         \<and> (quick_summarize text 0 = text \<longleftrightarrow> text = [] \<or> length (py_split text) < 20)"
proof -
  have "\<not> int (length (sentences text)) \<le> k"
    using assms sentences_nonempty [of "text"] by linarith
  then have a: "quick_summarize text k =
           (if text = [] \<or> length (py_split text) < 20 then text
            else join_space (map snd (chosen text k)))"
    by (simp add: quick_summarize_def)
  have "nat (int (length (sentences text)) + k) = length (sentences text) - nat (- k)"
    using assms by simp
  then have b: "top_entries text k =
      (if k = 0 then [] else take (length (sentences text) - nat (- k)) (ranked text))"
    using assms by (simp add: top_entries_def py_take_def length_ranked)
  have z: "quick_summarize text 0 =
             (if text = [] \<or> length (py_split text) < 20 then text else [])"
    by (rule quick_summarize_zero)
  have i: "quick_summarize text 0 = text \<longleftrightarrow> text = [] \<or> length (py_split text) < 20"
    unfolding z by auto
  from a b z i show ?thesis by blast
qed

theorem nonpositive_max_sentences_witness:
  "(- 1 :: int) \<le> 0
   \<and> top_entries doc_tie (- 1) = take (length (sentences doc_tie) - 1) (ranked doc_tie)
   \<and> top_entries doc_tie (- 1) = [(8, 1, ''cat cat!''), (8, 0, ''cat cat.'')]
   \<and> quick_summarize doc_tie (- 1) = ''cat cat. cat cat!''
   \<and> quick_summarize doc_tie 0 = []"
proof -
  have e: "top_entries doc_tie (- 1) = [(8, 1, ''cat cat!''), (8, 0, ''cat cat.'')]"
    by code_simp
  have q: "quick_summarize doc_tie (- 1) = ''cat cat. cat cat!''"
    by code_simp
  have s: "\<not> (doc_tie = [] \<or> length (py_split doc_tie) < 20)"
    by code_simp
  have "quick_summarize doc_tie 0 = []"
    using nonpositive_max_sentences [of "- 1" doc_tie] s by simp
  moreover have "top_entries doc_tie (- 1)
      = take (length (sentences doc_tie) - 1) (ranked doc_tie)"
    using nonpositive_max_sentences [of "- 1" doc_tie] by simp
  ultimately show ?thesis using e q by simp
qed

text \<open>
  Claim C3 as stated fails: on \<open>doc_tie\<close> the result for \<open>max_sentences = 0\<close> is the
  empty string, the result for \<open>max_sentences = 1\<close> is one sentence.
\<close>

theorem zero_max_sentences_not_clamped:
  "quick_summarize doc_tie 0 = [] \<and> quick_summarize doc_tie 1 = ''cat cat!''"
  by code_simp

text \<open>
  Claim C2 at \<open>doc_repeat\<close> with \<open>max_sentences = 3\<close>: the document has twenty words and
  five sentences, so the fallback is not taken; \<open>top\<close> holds three sentences, and line
  179 keeps every sentence whose text is in \<open>top\<close>, which are four.
\<close>

theorem repeated_sentences_exceed_bound:
  "length (py_split doc_repeat) = 20
   \<and> length (sentences doc_repeat) = 5
   \<and> top_sents doc_repeat 3 = [''go go.'', ''go go.'', ''go go.'']
   \<and> chosen doc_repeat 3 = [(0, ''go go.''), (1, ''go go.''), (2, ''go go.''), (3, ''go go.'')]
   \<and> quick_summarize doc_repeat 3 = ''go go. go go. go go. go go.''
   \<and> sentences (quick_summarize doc_repeat 3) = [''go go.'', ''go go.'', ''go go.'', ''go go.'']"
  by code_simp

text \<open>
  Claim C4 at \<open>doc_twice\<close> with \<open>max_sentences = 1\<close>: the document is not empty, has
  twenty words and two sentences, and the result is the document all the same, because
  line 179 keeps both copies of the one sentence in \<open>top\<close>.
\<close>

theorem repeated_document_returned_unchanged:
  "doc_twice \<noteq> []
   \<and> length (py_split doc_twice) = 20
   \<and> sentences doc_twice = [''b c d e f g h j k l.'', ''b c d e f g h j k l.'']
   \<and> \<not> int (length (sentences doc_twice)) \<le> 1
   \<and> top_sents doc_twice 1 = [''b c d e f g h j k l.'']
   \<and> quick_summarize doc_twice 1 = doc_twice"
  by code_simp

section \<open>Runs of apostrophes\<close>

lemma runs_all:
  "\<forall>c \<in> set xs. P c \<Longrightarrow> runs P cur (xs @ ys) = runs P (rev xs @ cur) ys"
  by (induction xs arbitrary: cur) auto

lemma runs_append:
  "a \<noteq> [] \<Longrightarrow> \<not> P (last a) \<Longrightarrow> runs P cur (a @ rest) = runs P cur a @ runs P [] rest"
proof (induction a arbitrary: cur)
  case Nil
  then show ?case by simp
next
  case (Cons c a)
  show ?case
  proof (cases "a = []")
    case True
    with Cons.prems show ?thesis by simp
  next
    case False
    with Cons.prems have "\<not> P (last a)" by simp
    with False show ?thesis
      using Cons.IH by simp
  qed
qed

lemma runs_delimited:
  assumes "q \<noteq> []" and "\<forall>c \<in> set q. P c"
    and "a = [] \<or> \<not> P (last a)" and "b = [] \<or> \<not> P (hd b)"
  shows "runs P [] (a @ q @ b) = runs P [] a @ [q] @ runs P [] b"
proof -
  have tail: "runs P [] (q @ b) = q # runs P [] b"
  proof (cases b)
    case Nil
    with assms(1,2) show ?thesis
      using runs_all [of q P "[]" "[]"] by simp
  next
    case (Cons c b')
    with assms(4) have "\<not> P c" by simp
    with Cons assms(1,2) show ?thesis
      using runs_all [of q P "[]" "c # b'"] by simp
  qed
  show ?thesis
  proof (cases "a = []")
    case True
    with tail show ?thesis by simp
  next
    case False
    with assms(3) have "runs P [] (a @ (q @ b)) = runs P [] a @ runs P [] (q @ b)"
      by (simp add: runs_append)
    with tail show ?thesis by simp
  qed
qed

lemma apostrophe_word_char: "is_word_char (CHR 0x27)"
  by (simp add: is_word_char_def)

lemma lower_apostrophes: "set q \<subseteq> {CHR 0x27} \<Longrightarrow> lower q = q"
proof -
  have "lower_char (CHR 0x27) = CHR 0x27"
    by code_simp
  then show "set q \<subseteq> {CHR 0x27} \<Longrightarrow> lower q = q"
    unfolding lower_def by (induction q) auto
qed

lemma apostrophes_not_stopword:
  assumes "q \<noteq> []" and "set q \<subseteq> {CHR 0x27}"
  shows "q \<notin> STOPWORDS"
proof
  assume "q \<in> STOPWORDS"
  then have "\<exists>c \<in> set q. CHR ''a'' \<le> c" 
    unfolding STOPWORDS_def by auto
  then have "CHR ''a'' \<le> CHR 0x27" using assms(2) by auto
  then show False by code_simp
qed

lemma findall_delimited:
  assumes "q \<noteq> []" and "set q \<subseteq> {CHR 0x27}"
    and "a = [] \<or> \<not> is_word_char (last a)" and "b = [] \<or> \<not> is_word_char (hd b)"
  shows "findall_words (a @ q @ b) = findall_words a @ [q] @ findall_words b"
proof -
  have w: "\<forall>c \<in> set q. is_word_char c"
    using assms(2) apostrophe_word_char by auto
  show ?thesis
    unfolding findall_words_def by (rule runs_delimited [OF assms(1) w assms(3,4)])
qed

lemma findall_apostrophes:
  assumes "q \<noteq> []" and "set q \<subseteq> {CHR 0x27}"
  shows "findall_words q = [q]"
  using findall_delimited [OF assms, of "[]" "[]"] by (simp add: findall_words_def)

text \<open>
  A non-empty run \<open>q\<close> of apostrophes that stands alone (the text before it is empty or
  ends outside \<^verbatim>\<open>[A-Za-z']\<close>, the text after it is empty or starts outside it) is one
  match of the tokenizer, is not a stop word, and adds its table entry to the score of
  the text it stands in, whatever the table is.
\<close>

lemma apostrophe_run_in_text:
  assumes "q \<noteq> []" and "set q \<subseteq> {CHR 0x27}"
    and "a = [] \<or> \<not> is_word_char (last a)" and "b = [] \<or> \<not> is_word_char (hd b)"
  shows "findall_words (a @ q @ b) = findall_words a @ [q] @ findall_words b
       \<and> q \<notin> STOPWORDS
       \<and> q \<in> set (content_words (a @ q @ b))
       \<and> 0 < freq_get (Counter (content_words (a @ q @ b))) q
       \<and> sentence_score freq (a @ q @ b)
           = sentence_score freq a + freq_get freq q + sentence_score freq b
       \<and> top_words q 1 = [(q, 1)]"
proof -
  note f = findall_delimited [OF assms]
  note l = lower_apostrophes [OF assms(2)]
  note n = apostrophes_not_stopword [OF assms(1,2)]
  have c: "q \<in> set (content_words (a @ q @ b))"
    using n by (simp add: content_words_def f l)
  then have "0 < count_list (content_words (a @ q @ b)) q"
    using count_list_0_iff [of "content_words (a @ q @ b)" q] by simp
  then have p: "0 < freq_get (Counter (content_words (a @ q @ b))) q"
    by (simp add: freq_get_Counter)
  have s: "sentence_score freq (a @ q @ b)
           = sentence_score freq a + freq_get freq q + sentence_score freq b"
    by (simp add: sentence_score_def f l)
  have "content_words q = [q]"
    using n by (simp add: content_words_def findall_apostrophes [OF assms(1,2)] l)
  then have t: "top_words q 1 = [(q, 1)]"
    by (simp add: top_words_def most_common_def Counter_def by_count_desc_def)
  from f n c p s t show ?thesis by blast
qed

lemma runs_snoc_skip: "\<not> P d \<Longrightarrow> runs P cur (x @ [d]) = runs P cur x"
  by (induction x arbitrary: cur) auto

lemma runs_trailing_skip: "\<forall>c \<in> set v. \<not> P c \<Longrightarrow> runs P cur (u @ v) = runs P cur u"
proof (induction v rule: rev_induct)
  case Nil
  show ?case by simp
next
  case (snoc d v)
  then have "runs P cur ((u @ v) @ [d]) = runs P cur (u @ v)"
    using runs_snoc_skip [of P d cur "u @ v"] by simp
  moreover have "runs P cur (u @ v) = runs P cur u"
    using snoc by simp
  ultimately show ?case by simp
qed

lemma runs_leading_skip: "\<forall>c \<in> set x. \<not> P c \<Longrightarrow> runs P [] (x @ y) = runs P [] y"
  by (induction x) auto

lemma runs_cut: "\<not> P d \<Longrightarrow> runs P cur (x @ d # y) = runs P cur x @ runs P [] y"
  using runs_append [of "x @ [d]" P cur y] by (simp add: runs_snoc_skip)

lemma runs_dropWhile:
  assumes "\<And>c. Q c \<Longrightarrow> \<not> P c"
  shows "runs P [] (dropWhile Q s) = runs P [] s"
proof -
  have "runs P [] (takeWhile Q s @ dropWhile Q s) = runs P [] (dropWhile Q s)"
    by (rule runs_leading_skip) (auto dest: set_takeWhileD assms)
  then show ?thesis by simp
qed

lemma runs_py_strip:
  assumes "\<And>c. is_space c \<Longrightarrow> \<not> P c"
  shows "runs P [] (py_strip s) = runs P [] s"
proof -
  let ?t = "dropWhile is_space s"
  have "?t = py_strip s @ rev (takeWhile is_space (rev ?t))"
    unfolding py_strip_def
    by (metis rev_append rev_rev_ident takeWhile_dropWhile_id)
  moreover have "\<forall>c \<in> set (rev (takeWhile is_space (rev ?t))). \<not> P c"
    by (auto dest: set_takeWhileD assms)
  ultimately have "runs P [] ?t = runs P [] (py_strip s)"
    using runs_trailing_skip [of "rev (takeWhile is_space (rev ?t))" P "[]" "py_strip s"]
    by simp
  then show ?thesis using runs_dropWhile [of is_space P s] assms by simp
qed

lemma runs_re_split:
  assumes "\<And>c. is_space c \<Longrightarrow> \<not> P c"
  shows "concat (map (runs P []) (re_split cur s)) = runs P [] (rev cur @ s)"
proof (induction cur s rule: re_split.induct)
  case (1 cur)
  show ?case by simp
next
  case (2 cur c cs)
  show ?case
  proof (cases "is_terminal c \<and> cs \<noteq> [] \<and> is_space (hd cs)")
    case True
    then obtain d cs' where cs: "cs = d # cs'" and d: "is_space d"
      by (cases cs) auto
    have "runs P [] ((rev cur @ [c]) @ d # cs') = runs P [] (rev cur @ [c]) @ runs P [] cs'"
      using assms [OF d] by (rule runs_cut)
    moreover have "runs P [] (dropWhile is_space cs) = runs P [] cs'"
      using runs_dropWhile [of is_space P cs'] assms d cs by simp
    ultimately show ?thesis
      using True "2.IH"(1) cs by simp
  next
    case False
    then show ?thesis using "2.IH"(2) by auto
  qed
qed

lemma space_not_word_char: "is_space c \<Longrightarrow> \<not> is_word_char c"
  unfolding is_space_def is_word_char_def
  by (auto simp: less_eq_char_def)

lemma findall_words_sentences:
  "findall_words text = concat (map findall_words (sentences text))"
proof -
  have "concat (map (runs is_word_char []) (re_split [] (py_strip text)))
          = runs is_word_char [] (py_strip text)"
    using runs_re_split [of is_word_char "[]" "py_strip text"] space_not_word_char by simp
  also have "\<dots> = runs is_word_char [] text"
    by (rule runs_py_strip) (rule space_not_word_char)
  finally show ?thesis
    unfolding findall_words_def sentences_def
    by (simp add: findall_words_def [abs_def])
qed

lemma nth_scores:
  "i < length (sentences text) \<Longrightarrow>
     scores text ! i =
       (sentence_score (Counter (content_words text)) (sentences text ! i), i, sentences text ! i)"
  by (simp add: scores_eq nth_enumerate_eq)

lemma sentence_tokens_in_document:
  "i < length (sentences text) \<Longrightarrow> w \<in> set (findall_words (sentences text ! i))
     \<Longrightarrow> w \<in> set (findall_words text)"
  using findall_words_sentences [of "text"] by (metis (no_types) UN_I nth_mem set_concat set_map image_eqI)

lemma counted_word_ranked:
  assumes "w \<in> set (content_words text)" and "int (length (Counter (content_words text))) \<le> n"
  shows "(w, count_list (content_words text) w) \<in> set (top_words text n)"
proof -
  let ?tab = "Counter (content_words text)"
  have "length (by_count_desc ?tab) \<le> nat n"
    using assms(2) by (simp add: by_count_desc_def)
  then have "top_words text n = by_count_desc ?tab"
    by (simp add: top_words_take)
  moreover have "(w, count_list (content_words text) w) \<in> set ?tab"
    using assms(1) Counter_eq [of "content_words text"] set_first_occ [of "content_words text"]
    by (metis (no_types, lifting) image_eqI set_map)
  ultimately show ?thesis by (simp add: set_by_count_desc)
qed

text \<open>
  Claim C10: let a sentence of the document contain a non-empty run \<open>q\<close> of apostrophes
  that stands alone. Then \<open>q\<close> is one match of the tokenizer and not a stop word; it is
  among the counted words of the document, and its entry in the frequency table is its
  number of occurrences, which is positive; the triple that \<open>quick_summarize\<close> builds for
  that sentence, and then ranks, has as its score the scores of the text before and
  after the run plus the table entry of \<open>q\<close>; and \<open>top_words\<close> returns \<open>q\<close> with its count
  as soon as \<open>n\<close> reaches the size of the table. In \<open>doc_ticks\<close> the runs of apostrophes
  give the first sentence the score 9 against 4, and \<open>quick_summarize\<close> with
  \<open>max_sentences = 1\<close> returns that sentence.
\<close>

theorem apostrophe_run_is_token:
  assumes "q \<noteq> []" and "set q \<subseteq> {CHR 0x27}"
    and "a = [] \<or> \<not> is_word_char (last a)" and "b = [] \<or> \<not> is_word_char (hd b)"
    and "i < length (sentences text)" and "sentences text ! i = a @ q @ b"
  shows "findall_words (a @ q @ b) = findall_words a @ [q] @ findall_words b
       \<and> q \<notin> STOPWORDS
       \<and> q \<in> set (content_words text)
       \<and> freq_get (Counter (content_words text)) q = count_list (content_words text) q
       \<and> 0 < freq_get (Counter (content_words text)) q
       \<and> scores text ! i =
           (sentence_score (Counter (content_words text)) a
              + freq_get (Counter (content_words text)) q
              + sentence_score (Counter (content_words text)) b, i, a @ q @ b)
       \<and> scores text ! i \<in> set (ranked text)
       \<and> (int (length (Counter (content_words text))) \<le> n
            \<longrightarrow> (q, count_list (content_words text) q) \<in> set (top_words text n))
       \<and> top_words q 1 = [(q, 1)]
       \<and> scores doc_ticks =
           [(9, 0, tick3 @ '' '' @ tick3 @ '' '' @ tick3 @ ''.''), (4, 1, ''cat cat.''),
            (0, 2, ''a a a a a a a a a a a a a a a'')]
       \<and> quick_summarize doc_ticks 1 = tick3 @ '' '' @ tick3 @ '' '' @ tick3 @ ''.''"
proof -
  let ?F = "Counter (content_words text)"
  note t = apostrophe_run_in_text [OF assms(1-4)]
  note l = lower_apostrophes [OF assms(2)]
  have f: "findall_words (a @ q @ b) = findall_words a @ [q] @ findall_words b"
    using t by blast
  have n: "q \<notin> STOPWORDS" using t by blast
  have "q \<in> set (findall_words (sentences text ! i))"
    using f assms(6) by simp
  then have "q \<in> set (findall_words text)"
    using sentence_tokens_in_document [OF assms(5)] by blast
  then have "lower q \<in> set (map lower (findall_words text))"
    by simp
  then have c: "q \<in> set (content_words text)"
    using n l by (simp add: content_words_def)
  have g: "freq_get ?F q = count_list (content_words text) q"
    by (rule freq_get_Counter)
  have p: "0 < freq_get ?F q"
    using c count_list_0_iff [of "content_words text" q] g by simp
  have "sentence_score ?F (a @ q @ b) = sentence_score ?F a + freq_get ?F q + sentence_score ?F b"
    using t by blast
  then have s: "scores text ! i =
      (sentence_score ?F a + freq_get ?F q + sentence_score ?F b, i, a @ q @ b)"
    using nth_scores [OF assms(5)] assms(6) by simp
  have r: "scores text ! i \<in> set (ranked text)"
    using assms(5) by (simp add: set_ranked length_scores)
  have w: "int (length ?F) \<le> n \<longrightarrow> (q, count_list (content_words text) q) \<in> set (top_words text n)"
    using counted_word_ranked [OF c] by blast
  have o: "top_words q 1 = [(q, 1)]" using t by blast
  have e1: "scores doc_ticks =
           [(9, 0, tick3 @ '' '' @ tick3 @ '' '' @ tick3 @ ''.''), (4, 1, ''cat cat.''),
            (0, 2, ''a a a a a a a a a a a a a a a'')]"
    by code_simp
  have e2: "quick_summarize doc_ticks 1 = tick3 @ '' '' @ tick3 @ '' '' @ tick3 @ ''.''"
    by code_simp
  from f n c g p s r w o e1 e2 show ?thesis by blast
qed

theorem apostrophe_run_is_token_witness:
  "tick3 \<noteq> [] \<and> set tick3 \<subseteq> {CHR 0x27}
   \<and> \<not> is_word_char (last (tick3 @ '' '')) \<and> \<not> is_word_char (hd ('' '' @ tick3 @ ''.''))
   \<and> 0 < length (sentences doc_ticks)
   \<and> sentences doc_ticks ! 0 = (tick3 @ '' '') @ tick3 @ ('' '' @ tick3 @ ''.'')
   \<and> 20 \<le> length (py_split doc_ticks) \<and> 1 < int (length (sentences doc_ticks))
   \<and> tick3 \<in> set (content_words doc_ticks)
   \<and> freq_get (Counter (content_words doc_ticks)) tick3 = 3
   \<and> scores doc_ticks ! 0 = (9, 0, (tick3 @ '' '') @ tick3 @ ('' '' @ tick3 @ ''.''))
   \<and> (tick3, 3) \<in> set (top_words doc_ticks 2)
   \<and> top_words doc_ticks 2 = [(tick3, 3), (''cat'', 2)]
   \<and> quick_summarize doc_ticks 1 = tick3 @ '' '' @ tick3 @ '' '' @ tick3 @ ''.''"
proof -
  have h1: "tick3 \<noteq> []" by (simp add: tick3_def)
  have h2: "set tick3 \<subseteq> {CHR 0x27}" by (simp add: tick3_def)
  have h3: "\<not> is_word_char (last (tick3 @ '' ''))" by code_simp
  have h4: "\<not> is_word_char (hd ('' '' @ tick3 @ ''.''))" by code_simp
  have h3': "tick3 @ '' '' = [] \<or> \<not> is_word_char (last (tick3 @ '' ''))" using h3 by blast
  have h4': "'' '' @ tick3 @ ''.'' = [] \<or> \<not> is_word_char (hd ('' '' @ tick3 @ ''.''))"
    using h4 by blast
  have h5: "0 < length (sentences doc_ticks)" by code_simp
  have h6: "sentences doc_ticks ! 0 = (tick3 @ '' '') @ tick3 @ ('' '' @ tick3 @ ''.'')"
    by code_simp
  have x1: "20 \<le> length (py_split doc_ticks) \<and> 1 < int (length (sentences doc_ticks))"
    by code_simp
  have x2: "count_list (content_words doc_ticks) tick3 = 3" by code_simp
  have x3: "sentence_score (Counter (content_words doc_ticks)) (tick3 @ '' '') = 3" by code_simp
  have x4: "sentence_score (Counter (content_words doc_ticks)) ('' '' @ tick3 @ ''.'') = 3"
    by code_simp
  have x5: "int (length (Counter (content_words doc_ticks))) \<le> 2" by code_simp
  have x6: "top_words doc_ticks 2 = [(tick3, 3), (''cat'', 2)]" by code_simp
  note t = apostrophe_run_is_token [OF h1 h2 h3' h4' h5 h6, of 2]
  have c: "tick3 \<in> set (content_words doc_ticks)" using t by blast
  have g: "freq_get (Counter (content_words doc_ticks)) tick3 = 3" using t x2 by simp
  have s: "scores doc_ticks ! 0 = (9, 0, (tick3 @ '' '') @ tick3 @ ('' '' @ tick3 @ ''.''))"
    using t g x3 x4 by simp
  have w: "(tick3, 3) \<in> set (top_words doc_ticks 2)" using t x5 x2 by simp
  have e: "quick_summarize doc_ticks 1 = tick3 @ '' '' @ tick3 @ '' '' @ tick3 @ ''.''"
    using t by blast
  from h1 h2 h3 h4 h5 h6 x1 c g s w x6 e show ?thesis by blast
qed

section \<open>Documents without repeated sentences\<close>

text \<open>
  Line 179 finds the selected sentences again by their text. When no sentence of the
  document occurs twice this is the same as selecting by index: the summary then has
  at most \<open>max_sentences\<close> sentences, and it equals the document only on one of the
  three fallbacks of lines 163-168. The examples \<open>doc_repeat\<close> and \<open>doc_twice\<close> above
  show that both fail once a sentence is repeated.
\<close>

lemma fallback_returns_document:
  "text = [] \<or> length (py_split text) < 20 \<or> int (length (sentences text)) \<le> k
     \<Longrightarrow> quick_summarize text k = text"
  by (auto simp: quick_summarize_def)

lemma length_top_sents_le: "0 \<le> k \<Longrightarrow> length (top_sents text k) \<le> nat k"
  by (simp add: top_sents_def top_entries_def py_take_def)

lemma length_top_sents_less:
  "k < int (length (sentences text)) \<Longrightarrow> length (top_sents text k) < length (sentences text)"
proof -
  assume a: "k < int (length (sentences text))"
  have "0 < length (sentences text)" by (rule sentences_nonempty)
  then have "\<not> 0 \<le> k \<Longrightarrow> nat (int (length (sentences text)) + k) < length (sentences text)"
    by linarith
  with a show ?thesis
    by (auto simp: top_sents_def top_entries_def py_take_def length_ranked)
qed

lemma length_chosen_distinct:
  assumes "distinct (sentences text)"
  shows "length (chosen text k) \<le> length (top_sents text k)"
proof -
  let ?f = "filter (\<lambda>s. s \<in> set (top_sents text k)) (sentences text)"
  have "length (chosen text k) = length ?f"
    using chosen_sentences [of "text" k] by (metis length_map)
  also have "\<dots> = card (set ?f)"
  proof -
    have "distinct ?f" using assms by (rule distinct_filter)
    then show ?thesis by (rule distinct_card [symmetric])
  qed
  also have "\<dots> \<le> card (set (top_sents text k))"
    by (rule card_mono) auto
  also have "\<dots> \<le> length (top_sents text k)"
    by (rule card_length)
  finally show ?thesis .
qed

lemma length_join_space:
  "length (join_space xs) = sum_list (map length xs) + (length xs - 1)"
  by (induction xs rule: join_space.induct) auto

lemma length_re_split:
  "sum_list (map length (re_split cur s)) + (length (re_split cur s) - 1) \<le> length cur + length s"
proof (induction cur s rule: re_split.induct)
  case (1 cur)
  show ?case by simp
next
  case (2 cur c cs)
  show ?case
  proof (cases "is_terminal c \<and> cs \<noteq> [] \<and> is_space (hd cs)")
    case True
    then have "length (dropWhile is_space cs) < length cs"
      by (cases cs) (auto simp: le_imp_less_Suc length_dropWhile_le)
    moreover have "0 < length (re_split [] (dropWhile is_space cs))"
      by (simp add: re_split_nonempty)
    ultimately show ?thesis
      using True "2.IH"(1) by simp
  next
    case False
    then show ?thesis using "2.IH"(2) by auto
  qed
qed

lemma length_py_strip: "length (py_strip s) \<le> length s"
proof -
  have "length (py_strip s) \<le> length (dropWhile is_space s)"
    unfolding py_strip_def
    using length_dropWhile_le [of is_space "rev (dropWhile is_space s)"] by simp
  also have "\<dots> \<le> length s" by (rule length_dropWhile_le)
  finally show ?thesis .
qed

lemma length_sentences:
  "sum_list (map length (sentences text)) + (length (sentences text) - 1) \<le> length text"
  using length_re_split [of "[]" "py_strip text"] length_py_strip [of "text"]
  by (simp add: sentences_def)

lemma sum_length_filter: "sum_list (map length (filter P xs)) \<le> sum_list (map length xs)"
  by (induction xs) auto

lemma proper_summary_is_shorter:
  assumes "text \<noteq> []" and "x \<in> set (sentences text)" and "x \<notin> set (top_sents text k)"
  shows "length (join_space (map snd (chosen text k))) < length text"
proof -
  let ?f = "filter (\<lambda>s. s \<in> set (top_sents text k)) (sentences text)"
  have lt: "length ?f < length (sentences text)"
    using assms(2,3) length_filter_less by metis
  show ?thesis
  proof (cases "?f = []")
    case True
    with assms(1) show ?thesis by (simp add: chosen_sentences)
  next
    case False
    then have "0 < length ?f" by simp
    with lt have "length ?f - 1 < length (sentences text) - 1" by linarith
    then have "length (join_space ?f) < sum_list (map length (sentences text)) + (length (sentences text) - 1)"
      using sum_length_filter [of "\<lambda>s. s \<in> set (top_sents text k)" "sentences text"]
      by (simp add: length_join_space)
    then show ?thesis
      using length_sentences [of "text"] by (simp add: chosen_sentences)
  qed
qed

lemma distinct_summary_differs:
  assumes "distinct (sentences text)" and "text \<noteq> []" and "20 \<le> length (py_split text)"
    and "k < int (length (sentences text))"
  shows "quick_summarize text k \<noteq> text"
proof -
  have "card (set (top_sents text k)) < card (set (sentences text))"
    using length_top_sents_less [OF assms(4)] card_length [of "top_sents text k"]
      distinct_card [OF assms(1)] by simp
  then have "\<not> set (sentences text) \<subseteq> set (top_sents text k)"
    using card_mono [of "set (top_sents text k)" "set (sentences text)"] by auto
  then obtain x where "x \<in> set (sentences text)" and "x \<notin> set (top_sents text k)"
    by blast
  then have "length (join_space (map snd (chosen text k))) < length text"
    using proper_summary_is_shorter [OF assms(2)] by blast
  moreover have "quick_summarize text k = join_space (map snd (chosen text k))"
    using assms(2,3,4) by (simp add: quick_summarize_def)
  ultimately show ?thesis by auto
qed

lemma distinct_identity_iff:
  "distinct (sentences text) \<Longrightarrow>
     quick_summarize text k = text \<longleftrightarrow>
       text = [] \<or> length (py_split text) < 20 \<or> int (length (sentences text)) \<le> k"
  using distinct_summary_differs [of "text" k] fallback_returns_document [of "text" k]
  by (meson not_le_imp_less)

lemma distinct_bounded_summary:
  "distinct (sentences text) \<Longrightarrow> 0 \<le> k \<Longrightarrow> length (chosen text k) \<le> nat k"
  using length_chosen_distinct [of "text" k] length_top_sents_le [of k "text"] by simp

end
